theory Spec2Isabelle
  imports Main
begin

section \<open>Sequential module unlocking: the schema and its PL/pgSQL functions\<close>

text \<open>
  The repository keeps its progression logic as SQL in two revisions of one design
  document. The revision with \<^verbatim>\<open>get_module_status\<close>, the correlated-subquery
  \<^verbatim>\<open>get_user_modules\<close> and the trigger is \<^verbatim>\<open>database-design.md\<close>; the other
  revision has the stored-status \<^verbatim>\<open>get_user_modules\<close> and, in place of the trigger,
  \<^verbatim>\<open>complete_module\<close>. The three functions and the two queries are embedded here;
  the trigger and the views are not.

  Tables are lists of rows, and the schema's key constraints are predicates on those
  lists. \<^verbatim>\<open>INTEGER\<close> columns are read as \<open>int\<close>, and the one sum the functions
  compute, \<^verbatim>\<open>order_index + 1\<close>, is range-checked as PostgreSQL checks it.
  \<^verbatim>\<open>TIMESTAMP WITH TIME ZONE\<close> is a number of ticks, and \<^verbatim>\<open>NOW()\<close>, which is fixed
  for the duration of a transaction, is a parameter of each call. The surrogate
  \<^verbatim>\<open>id SERIAL\<close> of \<^verbatim>\<open>user_module_progress\<close> is read by no function and is left out.
  A NULL is \<open>None\<close>; the status column is \<^verbatim>\<open>NOT NULL\<close> with a \<^verbatim>\<open>CHECK\<close> for
  the three values.
\<close>

subsection \<open>Tables\<close>

type_synonym uuid = nat

type_synonym timestamptz = int

datatype status = Done | Active | Locked

record module =
  m_id :: int
  m_title :: string
  m_description :: "string option"
  m_order_index :: int
  m_created_at :: "timestamptz option"
  m_updated_at :: "timestamptz option"

record progress =
  ump_user_id :: uuid
  ump_module_id :: int
  ump_status :: status
  ump_completed_at :: "timestamptz option"
  ump_started_at :: "timestamptz option"
  ump_created_at :: "timestamptz option"
  ump_updated_at :: "timestamptz option"

text \<open>The row type of \<^verbatim>\<open>RETURNS TABLE (...)\<close> of both \<^verbatim>\<open>get_user_modules\<close>.\<close>

record module_row =
  r_id :: int
  r_title :: string
  r_description :: "string option"
  r_order_index :: int
  r_status :: status
  r_completed_at :: "timestamptz option"
  r_started_at :: "timestamptz option"

text \<open>
  \<^verbatim>\<open>modules.id\<close> is the primary key and \<^verbatim>\<open>order_index\<close> is \<^verbatim>\<open>UNIQUE\<close>;
  \<^verbatim>\<open>user_module_progress\<close> has \<^verbatim>\<open>UNIQUE(user_id, module_id)\<close>. Its foreign key
  from \<^verbatim>\<open>module_id\<close> to \<^verbatim>\<open>modules(id)\<close> is needed by no statement below.
\<close>

definition wf_modules :: "module list \<Rightarrow> bool" where
  "wf_modules ms \<longleftrightarrow> distinct (map m_id ms) \<and> distinct (map m_order_index ms)"

definition wf_progress :: "progress list \<Rightarrow> bool" where
  "wf_progress ps \<longleftrightarrow> distinct (map (\<lambda>r. (ump_user_id r, ump_module_id r)) ps)"

text \<open>
  The conditions a call can end with instead of returning. None of the functions has a
  \<^verbatim>\<open>RAISE\<close> or an \<^verbatim>\<open>INTO STRICT\<close>; the run-time errors their text can produce are
  that of a scalar subquery that yields more than one row, and that of an
  \<^verbatim>\<open>INTEGER\<close> addition whose result is out of range.
\<close>

datatype error = CardinalityViolation | NumericValueOutOfRange

text \<open>
  \<^verbatim>\<open>INTEGER\<close> is the signed 32-bit range, and its \<^verbatim>\<open>+\<close> is range-checked:
  PostgreSQL raises \<^verbatim>\<open>integer out of range\<close> instead of wrapping around.
\<close>

definition int4 :: "int \<Rightarrow> bool" where
  "int4 x \<longleftrightarrow> - 2147483648 \<le> x \<and> x \<le> 2147483647"

definition int4_add :: "int \<Rightarrow> int \<Rightarrow> error + int" where
  "int4_add a b = (if int4 (a + b) then Inr (a + b) else Inl NumericValueOutOfRange)"

subsection \<open>Queries shared by the functions\<close>

text \<open>
  \<^verbatim>\<open>SELECT status INTO v_current_status FROM user_module_progress
  WHERE user_id = p_user_id AND module_id = p_module_id\<close>: the first row, or NULL.
\<close>

definition select_progress :: "progress list \<Rightarrow> uuid \<Rightarrow> int \<Rightarrow> progress option" where
  "select_progress ps u mid = find (\<lambda>r. ump_user_id r = u \<and> ump_module_id r = mid) ps"

definition select_status :: "progress list \<Rightarrow> uuid \<Rightarrow> int \<Rightarrow> status option" where
  "select_status ps u mid = map_option ump_status (select_progress ps u mid)"

text \<open>
  \<^verbatim>\<open>SELECT order_index INTO v_order_index FROM modules WHERE id = p_module_id\<close>.
\<close>

definition select_order_index :: "module list \<Rightarrow> int \<Rightarrow> int option" where
  "select_order_index ms mid = map_option m_order_index (find (\<lambda>m. m_id m = mid) ms)"

text \<open>
  The two counts of \<^verbatim>\<open>get_module_status\<close> and of the correlated subqueries. The bound
  is a nullable value: a comparison with NULL is not true, so no row is counted.
\<close>

definition previous_done_count :: "module list \<Rightarrow> progress list \<Rightarrow> uuid \<Rightarrow> int option \<Rightarrow> nat" where
  "previous_done_count ms ps u bound =
     length (concat (map (\<lambda>ump. filter (\<lambda>m. m_id m = ump_module_id ump
                                          \<and> ump_user_id ump = u
                                          \<and> ump_status ump = Done
                                          \<and> (case bound of None \<Rightarrow> False
                                              | Some b \<Rightarrow> m_order_index m < b)) ms) ps))"

definition total_previous_modules :: "module list \<Rightarrow> int option \<Rightarrow> nat" where
  "total_previous_modules ms bound =
     length (filter (\<lambda>m. case bound of None \<Rightarrow> False | Some b \<Rightarrow> m_order_index m < b) ms)"

subsection \<open>get_module_status\<close>

definition get_module_status :: "module list \<Rightarrow> progress list \<Rightarrow> uuid \<Rightarrow> int \<Rightarrow> error + status" where
  "get_module_status ms ps p_user_id p_module_id =
     (let v_order_index = select_order_index ms p_module_id;
          v_current_status = select_status ps p_user_id p_module_id
      in if v_current_status = Some Done then Inr Done
         else if v_order_index = Some 1 then Inr Active
         else let v_previous_done_count = previous_done_count ms ps p_user_id v_order_index;
                  v_total_previous_modules = total_previous_modules ms v_order_index
              in if v_previous_done_count = v_total_previous_modules then Inr Active
                 else Inr Locked)"

subsection \<open>get_user_modules, both revisions\<close>

text \<open>
  \<^verbatim>\<open>FROM modules m LEFT JOIN user_module_progress ump
  ON m.id = ump.module_id AND ump.user_id = p_user_id ORDER BY m.order_index\<close>:
  one output row for each matching progress row, and one with NULLs for a module that
  has none. The sort is the stable insertion sort of the library; under the key
  constraints no two rows have the same \<^verbatim>\<open>order_index\<close>.
\<close>

definition left_join_progress :: "module list \<Rightarrow> progress list \<Rightarrow> uuid \<Rightarrow> (module \<times> progress option) list" where
  "left_join_progress ms ps u =
     concat (map (\<lambda>m. let rs = filter (\<lambda>ump. m_id m = ump_module_id ump \<and> ump_user_id ump = u) ps
                      in if rs = [] then [(m, None)] else map (\<lambda>ump. (m, Some ump)) rs) ms)"

definition order_by_order_index :: "(module \<times> progress option) list \<Rightarrow> (module \<times> progress option) list" where
  "order_by_order_index js = sort_key (\<lambda>j. m_order_index (fst j)) js"

definition output_row :: "module \<Rightarrow> progress option \<Rightarrow> status \<Rightarrow> module_row" where
  "output_row m ump st =
     \<lparr> r_id = m_id m, r_title = m_title m, r_description = m_description m,
       r_order_index = m_order_index m, r_status = st,
       r_completed_at = (case ump of None \<Rightarrow> None | Some r \<Rightarrow> ump_completed_at r),
       r_started_at = (case ump of None \<Rightarrow> None | Some r \<Rightarrow> ump_started_at r) \<rparr>"

text \<open>The stored-status revision: \<^verbatim>\<open>COALESCE(ump.status, 'locked')\<close>.\<close>

definition get_user_modules :: "module list \<Rightarrow> progress list \<Rightarrow> uuid \<Rightarrow> error + module_row list" where
  "get_user_modules ms ps p_user_id =
     Inr (map (\<lambda>(m, ump). output_row m ump
                 (case ump of None \<Rightarrow> Locked | Some r \<Rightarrow> ump_status r))
              (order_by_order_index (left_join_progress ms ps p_user_id)))"

text \<open>The revision of \<^verbatim>\<open>database-design.md\<close>: the \<^verbatim>\<open>CASE\<close> with two counts.\<close>

definition subquery_status :: "module list \<Rightarrow> progress list \<Rightarrow> uuid \<Rightarrow> module \<Rightarrow> progress option \<Rightarrow> status" where
  "subquery_status ms ps p_user_id m ump =
     (if map_option ump_status ump = Some Done then Done
      else if m_order_index m = 1 then Active
      else if previous_done_count ms ps p_user_id (Some (m_order_index m))
              = total_previous_modules ms (Some (m_order_index m)) then Active
      else Locked)"

definition get_user_modules_subquery :: "module list \<Rightarrow> progress list \<Rightarrow> uuid \<Rightarrow> error + module_row list" where
  "get_user_modules_subquery ms ps p_user_id =
     Inr (map (\<lambda>(m, ump). output_row m ump (subquery_status ms ps p_user_id m ump))
              (order_by_order_index (left_join_progress ms ps p_user_id)))"

subsection \<open>complete_module\<close>

text \<open>
  \<^verbatim>\<open>UPDATE user_module_progress SET status = 'done', completed_at = NOW(),
  updated_at = NOW() WHERE user_id = p_user_id AND module_id = p_module_id\<close>.
\<close>

definition update_done :: "progress list \<Rightarrow> timestamptz \<Rightarrow> uuid \<Rightarrow> int \<Rightarrow> progress list" where
  "update_done ps now u mid =
     map (\<lambda>r. if ump_user_id r = u \<and> ump_module_id r = mid
              then r\<lparr> ump_status := Done, ump_completed_at := Some now, ump_updated_at := Some now \<rparr>
              else r) ps"

text \<open>
  The scalar subquery \<^verbatim>\<open>(SELECT order_index + 1 FROM modules WHERE id = p_module_id)\<close>:
  NULL for no row, an error for more than one, and for one row the range-checked sum.
\<close>

definition next_order_index :: "module list \<Rightarrow> int \<Rightarrow> error + int option" where
  "next_order_index ms mid =
     (case filter (\<lambda>m. m_id m = mid) ms of
        [] \<Rightarrow> Inr None
      | [m] \<Rightarrow> (case int4_add (m_order_index m) 1 of
                  Inl e \<Rightarrow> Inl e
                | Inr oi \<Rightarrow> Inr (Some oi))
      | _ \<Rightarrow> Inl CardinalityViolation)"

text \<open>
  \<^verbatim>\<open>SELECT id INTO v_next_module_id FROM modules WHERE order_index = (...) LIMIT 1\<close>.
\<close>

definition select_next_module_id :: "module list \<Rightarrow> int \<Rightarrow> error + int option" where
  "select_next_module_id ms mid =
     (case next_order_index ms mid of
        Inl e \<Rightarrow> Inl e
      | Inr None \<Rightarrow> Inr None
      | Inr (Some oi) \<Rightarrow> Inr (map_option m_id (find (\<lambda>m. m_order_index m = oi) ms)))"

text \<open>
  \<^verbatim>\<open>INSERT INTO user_module_progress (user_id, module_id, status, started_at)
  VALUES (p_user_id, v_next_module_id, 'active', NOW())
  ON CONFLICT (user_id, module_id) DO UPDATE SET status = 'active',
  started_at = COALESCE(user_module_progress.started_at, NOW()), updated_at = NOW()
  WHERE user_module_progress.status != 'done'\<close>. The columns the statement does not
  name take their defaults: \<^verbatim>\<open>completed_at\<close> NULL, \<^verbatim>\<open>created_at\<close> and
  \<^verbatim>\<open>updated_at\<close> \<^verbatim>\<open>NOW()\<close>.
\<close>

definition upsert_active :: "progress list \<Rightarrow> timestamptz \<Rightarrow> uuid \<Rightarrow> int \<Rightarrow> progress list" where
  "upsert_active ps now u mid =
     (if list_ex (\<lambda>r. ump_user_id r = u \<and> ump_module_id r = mid) ps
      then map (\<lambda>r. if ump_user_id r = u \<and> ump_module_id r = mid \<and> ump_status r \<noteq> Done
                    then r\<lparr> ump_status := Active,
                            ump_started_at := Some (case ump_started_at r of None \<Rightarrow> now | Some t \<Rightarrow> t),
                            ump_updated_at := Some now \<rparr>
                    else r) ps
      else ps @ [\<lparr> ump_user_id = u, ump_module_id = mid, ump_status = Active,
                   ump_completed_at = None, ump_started_at = Some now,
                   ump_created_at = Some now, ump_updated_at = Some now \<rparr>])"

definition complete_module :: "module list \<Rightarrow> progress list \<Rightarrow> timestamptz \<Rightarrow> uuid \<Rightarrow> int \<Rightarrow> error + progress list" where
  "complete_module ms ps now p_user_id p_module_id =
     (let v_current_status = select_status ps p_user_id p_module_id
      in if v_current_status = None \<or> v_current_status \<noteq> Some Active then Inr ps
         else let ps1 = update_done ps now p_user_id p_module_id
              in case select_next_module_id ms p_module_id of
                   Inl e \<Rightarrow> Inl e
                 | Inr None \<Rightarrow> Inr ps1
                 | Inr (Some v_next_module_id) \<Rightarrow> Inr (upsert_active ps1 now p_user_id v_next_module_id))"

subsection \<open>Sequences of calls and the shape of a projection\<close>

text \<open>
  A client session: \<^verbatim>\<open>complete_module\<close> called again and again, each call with its
  own \<^verbatim>\<open>NOW()\<close>, user and module; the session ends at the first call that raises.
\<close>

fun run_calls :: "module list \<Rightarrow> progress list \<Rightarrow> (timestamptz \<times> uuid \<times> int) list \<Rightarrow> error + progress list" where
  "run_calls ms ps [] = Inr ps"
| "run_calls ms ps ((now, u, mid) # cs) =
     (case complete_module ms ps now u mid of
        Inl e \<Rightarrow> Inl e
      | Inr ps' \<Rightarrow> run_calls ms ps' cs)"

text \<open>
  The rows with status \<^verbatim>\<open>done\<close> are closed downwards in \<^verbatim>\<open>order_index\<close>: they are
  a prefix of the catalog order.
\<close>

definition done_prefix :: "module_row list \<Rightarrow> bool" where
  "done_prefix rows \<longleftrightarrow>
     list_all (\<lambda>r. r_status r = Done \<longrightarrow>
                 list_all (\<lambda>r'. r_order_index r' < r_order_index r \<longrightarrow> r_status r' = Done) rows) rows"

text \<open>
  The stored statuses of one user are in order: a module whose row is \<^verbatim>\<open>done\<close> or
  \<^verbatim>\<open>active\<close> has every module of smaller \<^verbatim>\<open>order_index\<close> stored as
  \<^verbatim>\<open>done\<close>.
\<close>

definition ordered_progress :: "module list \<Rightarrow> progress list \<Rightarrow> uuid \<Rightarrow> bool" where
  "ordered_progress ms ps u \<longleftrightarrow>
     list_all (\<lambda>m. select_status ps u (m_id m) \<in> {Some Done, Some Active} \<longrightarrow>
                 list_all (\<lambda>m'. m_order_index m' < m_order_index m \<longrightarrow>
                                select_status ps u (m_id m') = Some Done) ms) ms"

text \<open>
  Every module that the status rules make available, the one with \<^verbatim>\<open>order_index = 1\<close>
  and any module whose predecessors are all stored as \<^verbatim>\<open>done\<close>, has a stored row
  with status \<^verbatim>\<open>done\<close> or \<^verbatim>\<open>active\<close>.
\<close>

definition frontier_open :: "module list \<Rightarrow> progress list \<Rightarrow> uuid \<Rightarrow> bool" where
  "frontier_open ms ps u \<longleftrightarrow>
     list_all (\<lambda>m. m_order_index m = 1
                   \<or> list_all (\<lambda>m'. m_order_index m' < m_order_index m \<longrightarrow>
                                   select_status ps u (m_id m') = Some Done) ms
                 \<longrightarrow> select_status ps u (m_id m) \<in> {Some Done, Some Active}) ms"

text \<open>
  The catalog has no gap after a module that has a later one: \<^verbatim>\<open>complete_module\<close>
  looks for the successor at \<^verbatim>\<open>order_index + 1\<close>.
\<close>

definition consecutive :: "module list \<Rightarrow> bool" where
  "consecutive ms \<longleftrightarrow>
     list_all (\<lambda>m. list_ex (\<lambda>m'. m_order_index m < m_order_index m') ms
                 \<longrightarrow> list_ex (\<lambda>m''. m_order_index m'' = m_order_index m + 1) ms) ms"

text \<open>
  No module's \<^verbatim>\<open>order_index + 1\<close> leaves the \<^verbatim>\<open>INTEGER\<close> range, so the successor
  lookup cannot raise \<^verbatim>\<open>integer out of range\<close>.
\<close>

definition int4_successors :: "module list \<Rightarrow> bool" where
  "int4_successors ms \<longleftrightarrow> list_all (\<lambda>m. int4 (m_order_index m + 1)) ms"

text \<open>The \<^verbatim>\<open>status\<close> column of a result, for reading off a projection.\<close>

definition status_column :: "error + module_row list \<Rightarrow> error + status list" where
  "status_column res = (case res of Inl e \<Rightarrow> Inl e | Inr rows \<Rightarrow> Inr (map r_status rows))"

subsection \<open>The seed data and sample tables\<close>

text \<open>
  The five modules the migration script inserts, with the identifiers \<^verbatim>\<open>SERIAL\<close>
  gives them; the titles of the last four are written in English.
\<close>

definition catalog_row :: "int \<Rightarrow> string \<Rightarrow> int \<Rightarrow> module" where
  "catalog_row i t oi = \<lparr> m_id = i, m_title = t, m_description = None, m_order_index = oi,
                          m_created_at = Some 0, m_updated_at = Some 0 \<rparr>"

definition seed_modules :: "module list" where
  "seed_modules = [catalog_row 1 ''Welcome Journey'' 1, catalog_row 2 ''Switching to yourself'' 2,
                   catalog_row 3 ''Source of inspiration'' 3, catalog_row 4 ''Space of ideas'' 4,
                   catalog_row 5 ''Final test'' 5]"

definition stored_row :: "uuid \<Rightarrow> int \<Rightarrow> status \<Rightarrow> timestamptz option \<Rightarrow> timestamptz option \<Rightarrow> progress" where
  "stored_row u mid st started completed =
     \<lparr> ump_user_id = u, ump_module_id = mid, ump_status = st, ump_completed_at = completed,
       ump_started_at = started, ump_created_at = Some 0, ump_updated_at = Some 0 \<rparr>"

text \<open>User 7 has finished module 1 and is on module 2; a row for module 3 is stored locked.\<close>

definition midway_progress :: "progress list" where
  "midway_progress = [stored_row 7 1 Done (Some 10) (Some 20), stored_row 7 2 Active (Some 20) None,
                      stored_row 7 3 Locked None None]"


text \<open>User 8 is on the last module.\<close>

definition final_progress :: "progress list" where
  "final_progress = [stored_row 8 4 Done (Some 10) (Some 20), stored_row 8 5 Active (Some 20) None]"

text \<open>User 7 has been given the first module and nothing else.\<close>

definition started_progress :: "progress list" where
  "started_progress = [stored_row 7 1 Active (Some 0) None]"

text \<open>User 7 has finished module 1; a row for module 2 is stored locked.\<close>

definition done_then_locked_progress :: "progress list" where
  "done_then_locked_progress = [stored_row 7 1 Done (Some 10) (Some 20), stored_row 7 2 Locked None None]"

text \<open>
  A catalog whose only module has the largest \<^verbatim>\<open>INTEGER\<close> as its \<^verbatim>\<open>order_index\<close>,
  and user 8 on that module.
\<close>

definition edge_modules :: "module list" where
  "edge_modules = [catalog_row 1 ''Final test'' 2147483647]"

definition edge_progress :: "progress list" where
  "edge_progress = [stored_row 8 1 Active (Some 20) None]"

section \<open>Lists, keys and lookups\<close>

lemmas eval_defs = get_user_modules_def get_user_modules_subquery_def get_module_status_def
  left_join_progress_def order_by_order_index_def output_row_def subquery_status_def
  previous_done_count_def total_previous_modules_def select_status_def select_progress_def
  select_order_index_def status_column_def seed_modules_def catalog_row_def stored_row_def

lemmas call_defs = complete_module_def select_status_def select_progress_def update_done_def
  select_next_module_id_def next_order_index_def int4_add_def int4_def upsert_active_def


lemma find_map_apply:
  assumes "\<And>x. P (g x) = P x"
  shows "find P (map g xs) = map_option g (find P xs)"
  using assms by (induction xs) auto

lemma find_append_Some: "find P xs = Some r \<Longrightarrow> find P (xs @ ys) = Some r"
  by (induction xs) auto

lemma find_append_None: "find P xs = None \<Longrightarrow> find P (xs @ ys) = find P ys"
  by (induction xs) (auto split: if_splits)

lemma length_concat_filter_swap:
  "length (concat (map (\<lambda>x. filter (P x) ys) xs))
     = length (concat (map (\<lambda>y. filter (\<lambda>x. P x y) xs) ys))"
proof (induction xs)
  case Nil
  show ?case by (induction ys) simp_all
next
  case (Cons a xs)
  have "length (concat (map (\<lambda>y. filter (\<lambda>x. P x y) (a # xs)) ys))
          = length (filter (P a) ys) + length (concat (map (\<lambda>y. filter (\<lambda>x. P x y) xs) ys))"
    by (induction ys) simp_all
  with Cons show ?case by simp
qed

lemma length_filter_conj_eq:
  "length (filter (\<lambda>x. P x \<and> Q x) xs) = length (filter P xs) \<longleftrightarrow> (\<forall>x\<in>set xs. P x \<longrightarrow> Q x)"
proof (induction xs)
  case Nil
  show ?case by simp
next
  case (Cons a xs)
  have "length (filter (\<lambda>x. P x \<and> Q x) xs) \<le> length (filter P xs)"
    by (induction xs) auto
  with Cons show ?case by auto
qed

lemma filter_id_single:
  assumes "distinct (map m_id ms)" and "m \<in> set ms"
  shows "filter (\<lambda>x. m_id x = m_id m) ms = [m]"
  using assms
proof (induction ms)
  case Nil
  then show ?case by simp
next
  case (Cons a ms)
  show ?case
  proof (cases "a = m")
    case True
    with Cons.prems have "m_id m \<notin> m_id ` set ms" by simp
    then have "\<forall>x\<in>set ms. m_id x \<noteq> m_id m" by (metis imageI)
    then have "filter (\<lambda>x. m_id x = m_id m) ms = []" by (simp add: filter_empty_conv)
    with True show ?thesis by simp
  next
    case False
    with Cons.prems have "m \<in> set ms" and "m_id a \<noteq> m_id m" by auto
    with Cons show ?thesis by simp
  qed
qed

lemma find_id:
  assumes "distinct (map m_id ms)" and "m \<in> set ms"
  shows "find (\<lambda>x. m_id x = m_id m) ms = Some m"
  using assms by (induction ms) (auto simp: image_iff)

lemma wf_modules_id_inj:
  assumes "wf_modules ms" and "a \<in> set ms" and "b \<in> set ms" and "m_id a = m_id b"
  shows "a = b"
proof -
  from assms(1) have "inj_on m_id (set ms)" by (simp add: wf_modules_def distinct_map)
  with assms(2-4) show ?thesis by (auto dest: inj_onD)
qed

lemma wf_modules_order_inj:
  assumes "wf_modules ms" and "a \<in> set ms" and "b \<in> set ms" and "m_order_index a = m_order_index b"
  shows "a = b"
proof -
  from assms(1) have "inj_on m_order_index (set ms)" by (simp add: wf_modules_def distinct_map)
  with assms(2-4) show ?thesis by (auto dest: inj_onD)
qed

lemma wf_progress_unique:
  assumes "wf_progress ps" and "select_progress ps u n = Some r"
    and "r' \<in> set ps" and "ump_user_id r' = u" and "ump_module_id r' = n"
  shows "r' = r"
proof -
  let ?k = "\<lambda>r. (ump_user_id r, ump_module_id r)"
  from assms(2) have "r \<in> set ps" and "?k r = (u, n)"
    by (auto simp: select_progress_def find_Some_iff)
  moreover from assms(1) have "inj_on ?k (set ps)"
    by (simp add: wf_progress_def distinct_map)
  ultimately show ?thesis using assms(3,4,5) by (auto dest: inj_onD)
qed

lemma filter_key_select:
  assumes "wf_progress ps"
  shows "filter (\<lambda>r. ump_user_id r = u \<and> ump_module_id r = x) ps
           = (case select_progress ps u x of None \<Rightarrow> [] | Some r \<Rightarrow> [r])"
  using assms
proof (induction ps)
  case Nil
  then show ?case by (simp add: select_progress_def)
next
  case (Cons a ps)
  from Cons.prems have wf: "wf_progress ps" and
    fresh: "(ump_user_id a, ump_module_id a) \<notin> (\<lambda>r. (ump_user_id r, ump_module_id r)) ` set ps"
    by (simp_all add: wf_progress_def)
  show ?case
  proof (cases "ump_user_id a = u \<and> ump_module_id a = x")
    case True
    have "\<not> (ump_user_id r = u \<and> ump_module_id r = x)" if "r \<in> set ps" for r
    proof
      assume "ump_user_id r = u \<and> ump_module_id r = x"
      with True have "(ump_user_id a, ump_module_id a) = (ump_user_id r, ump_module_id r)" by simp
      moreover from that have "(ump_user_id r, ump_module_id r)
          \<in> (\<lambda>r. (ump_user_id r, ump_module_id r)) ` set ps" by (rule imageI)
      ultimately show False using fresh by simp
    qed
    then have "filter (\<lambda>r. ump_user_id r = u \<and> ump_module_id r = x) ps = []"
      by (simp add: filter_empty_conv)
    with True show ?thesis by (simp add: select_progress_def)
  next
    case False
    with Cons.IH [OF wf] show ?thesis by (auto simp: select_progress_def)
  qed
qed

lemma wf_seed_modules: "wf_modules seed_modules"
  by (simp add: wf_modules_def seed_modules_def catalog_row_def)

lemma seed_consecutive: "consecutive seed_modules"
  by (simp add: consecutive_def seed_modules_def catalog_row_def)

lemma seed_int4_successors: "int4_successors seed_modules"
  by (simp add: int4_successors_def int4_def seed_modules_def catalog_row_def)

section \<open>The catalog lookups\<close>

lemma select_order_index_unknown:
  "mid \<notin> set (map m_id ms) \<Longrightarrow> select_order_index ms mid = None"
  by (auto simp: select_order_index_def find_None_iff)

lemma select_order_index_known:
  assumes "wf_modules ms" and "m \<in> set ms"
  shows "select_order_index ms (m_id m) = Some (m_order_index m)"
  using assms by (simp add: select_order_index_def wf_modules_def find_id)

lemma previous_done_count_null [simp]: "previous_done_count ms ps u None = 0"
  by (induction ps) (simp_all add: previous_done_count_def)

lemma total_previous_modules_null [simp]: "total_previous_modules ms None = 0"
  by (simp add: total_previous_modules_def)


lemma next_order_index_unknown:
  assumes "mid \<notin> set (map m_id ms)"
  shows "next_order_index ms mid = Inr None"
proof -
  from assms have "filter (\<lambda>m. m_id m = mid) ms = []"
    by (auto simp: filter_empty_conv)
  then show ?thesis by (simp add: next_order_index_def)
qed

lemma select_next_module_id_unknown:
  "mid \<notin> set (map m_id ms) \<Longrightarrow> select_next_module_id ms mid = Inr None"
  by (simp add: select_next_module_id_def next_order_index_unknown)

lemma next_order_index_known:
  assumes "wf_modules ms" and "m \<in> set ms"
  shows "next_order_index ms (m_id m) =
           (if int4 (m_order_index m + 1) then Inr (Some (m_order_index m + 1))
            else Inl NumericValueOutOfRange)"
  using assms by (simp add: next_order_index_def wf_modules_def filter_id_single int4_add_def)

lemma select_next_module_id_last:
  assumes "wf_modules ms" and "m \<in> set ms"
    and "\<forall>m'\<in>set ms. m_order_index m' \<le> m_order_index m"
    and "int4 (m_order_index m + 1)"
  shows "select_next_module_id ms (m_id m) = Inr None"
proof -
  have "find (\<lambda>x. m_order_index x = m_order_index m + 1) ms = None"
    using assms(3) by (fastforce simp: find_None_iff)
  then show ?thesis
    using assms(1,2,4) by (simp add: select_next_module_id_def next_order_index_known)
qed

lemma select_next_module_id_returns:
  assumes "wf_modules ms" and "int4_successors ms"
  shows "\<exists>x. select_next_module_id ms mid = Inr x"
proof (cases "mid \<in> set (map m_id ms)")
  case True
  then obtain m where m: "m \<in> set ms" "m_id m = mid" by auto
  with assms(2) have "int4 (m_order_index m + 1)"
    by (simp add: int4_successors_def list_all_iff)
  with assms(1) m next_order_index_known [of ms m] show ?thesis
    by (auto simp: select_next_module_id_def)
next
  case False
  then show ?thesis by (simp add: select_next_module_id_unknown)
qed

lemma select_next_module_id_raises:
  assumes "wf_modules ms" and "select_next_module_id ms mid = Inl e"
  shows "e = NumericValueOutOfRange \<and> \<not> int4_successors ms"
proof (cases "mid \<in> set (map m_id ms)")
  case True
  then obtain m where m: "m \<in> set ms" "m_id m = mid" by auto
  note n = next_order_index_known [OF assms(1) m(1)]
  show ?thesis
  proof (cases "int4 (m_order_index m + 1)")
    case True
    with n m(2) assms(2) show ?thesis by (simp add: select_next_module_id_def)
  next
    case False
    with n m(2) assms(2) have "e = NumericValueOutOfRange"
      by (simp add: select_next_module_id_def)
    moreover from False m(1) have "\<not> int4_successors ms"
      by (auto simp: int4_successors_def list_all_iff)
    ultimately show ?thesis by simp
  qed
next
  case False
  with assms(2) show ?thesis by (simp add: select_next_module_id_unknown)
qed

lemma select_next_module_id_Some:
  assumes "wf_modules ms" and "select_next_module_id ms mid = Inr (Some n)"
  shows "\<exists>mm mn. mm \<in> set ms \<and> mn \<in> set ms \<and> m_id mm = mid \<and> m_id mn = n
                \<and> m_order_index mn = m_order_index mm + 1"
proof -
  have "mid \<in> set (map m_id ms)"
    using assms(2) by (rule contrapos_pp) (simp add: select_next_module_id_unknown)
  then obtain mm where mm: "mm \<in> set ms" "m_id mm = mid" by auto
  note nx = next_order_index_known [OF assms(1) mm(1)]
  with assms(2) mm(2)
  have "map_option m_id (find (\<lambda>m. m_order_index m = m_order_index mm + 1) ms) = Some n"
    by (auto simp: select_next_module_id_def split: if_splits)
  then obtain mn where "find (\<lambda>m. m_order_index m = m_order_index mm + 1) ms = Some mn" and "m_id mn = n"
    by auto
  then have "mn \<in> set ms" and "m_order_index mn = m_order_index mm + 1" and "m_id mn = n"
    by (auto simp: find_Some_iff)
  with mm show ?thesis by blast
qed

lemma select_next_module_id_at:
  assumes wf: "wf_modules ms" and mm: "mm \<in> set ms" and mn: "mn \<in> set ms"
    and nx: "m_order_index mn = m_order_index mm + 1"
    and ret: "select_next_module_id ms (m_id mm) = Inr x"
  shows "x = Some (m_id mn)"
proof -
  from mn nx obtain y where f: "find (\<lambda>m. m_order_index m = m_order_index mm + 1) ms = Some y"
    by (cases "find (\<lambda>m. m_order_index m = m_order_index mm + 1) ms") (auto simp: find_None_iff)
  then have "y \<in> set ms" and "m_order_index y = m_order_index mm + 1"
    by (auto simp: find_Some_iff)
  with wf mn nx have "y = mn" by (auto intro: wf_modules_order_inj)
  with f ret show ?thesis
    by (auto simp: select_next_module_id_def next_order_index_known [OF wf mm] split: if_splits)
qed

section \<open>What one call does to the stored rows\<close>

lemma select_progress_update_done_same:
  "select_progress (update_done ps now u mid) u mid =
     map_option (\<lambda>r. r\<lparr> ump_status := Done, ump_completed_at := Some now, ump_updated_at := Some now \<rparr>)
                (select_progress ps u mid)"
  by (induction ps) (auto simp: select_progress_def update_done_def)

lemma select_progress_update_done_other:
  "(u', mid') \<noteq> (u, mid) \<Longrightarrow>
   select_progress (update_done ps now u mid) u' mid' = select_progress ps u' mid'"
  by (induction ps) (auto simp: select_progress_def update_done_def)






lemma select_status_update_done_eq:
  "select_status (update_done ps now u mid) u' x =
     (if u' = u \<and> x = mid \<and> select_status ps u mid \<noteq> None then Some Done
      else select_status ps u' x)"
proof (cases "(u', x) = (u, mid)")
  case True
  then show ?thesis
    by (cases "select_progress ps u mid")
       (auto simp: select_status_def select_progress_update_done_same)
next
  case False
  then show ?thesis
    by (auto simp: select_status_def select_progress_update_done_other)
qed

lemma select_status_upsert_active_eq:
  "select_status (upsert_active ps now u n) u' x =
     (if u' = u \<and> x = n
      then (if select_status ps u n = Some Done then Some Done else Some Active)
      else select_status ps u' x)"
proof (cases "list_ex (\<lambda>r. ump_user_id r = u \<and> ump_module_id r = n) ps")
  case True
  let ?g = "\<lambda>r. if ump_user_id r = u \<and> ump_module_id r = n \<and> ump_status r \<noteq> Done
                then r\<lparr> ump_status := Active,
                        ump_started_at := Some (case ump_started_at r of None \<Rightarrow> now | Some t \<Rightarrow> t),
                        ump_updated_at := Some now \<rparr>
                else r"
  let ?P = "\<lambda>r. ump_user_id r = u' \<and> ump_module_id r = x"
  have up: "upsert_active ps now u n = map ?g ps"
    using True by (simp add: upsert_active_def)
  have "select_progress (map ?g ps) u' x = map_option ?g (select_progress ps u' x)"
    unfolding select_progress_def by (rule find_map_apply) simp
  then have st: "select_status (map ?g ps) u' x = map_option (ump_status \<circ> ?g) (select_progress ps u' x)"
    by (simp add: select_status_def option.map_comp)
  show ?thesis
  proof (cases "select_progress ps u' x")
    case None
    with True have "\<not> (u' = u \<and> x = n)"
      by (auto simp: select_progress_def find_None_iff list_ex_iff)
    with None st up show ?thesis by (simp add: select_status_def)
  next
    case (Some r)
    then have "ump_user_id r = u'" and "ump_module_id r = x"
      by (auto simp: select_progress_def find_Some_iff)
    with Some st up show ?thesis by (auto simp: select_status_def)
  qed
next
  case False
  let ?new = "\<lparr> ump_user_id = u, ump_module_id = n, ump_status = Active,
                 ump_completed_at = None, ump_started_at = Some now,
                 ump_created_at = Some now, ump_updated_at = Some now \<rparr>"
  have up: "upsert_active ps now u n = ps @ [?new]"
    using False by (simp add: upsert_active_def)
  from False have none: "select_progress ps u n = None"
    by (auto simp: select_progress_def find_None_iff list_ex_iff)
  show ?thesis
  proof (cases "select_progress ps u' x")
    case None
    then have "select_progress (ps @ [?new]) u' x = (if u' = u \<and> x = n then Some ?new else None)"
      by (auto simp: select_progress_def find_append_None)
    with None none up show ?thesis by (auto simp: select_status_def)
  next
    case (Some r)
    then have "select_progress (ps @ [?new]) u' x = Some r"
      by (simp add: select_progress_def find_append_Some)
    moreover from Some none have "\<not> (u' = u \<and> x = n)" by auto
    ultimately show ?thesis using Some up by (auto simp: select_status_def)
  qed
qed

lemma update_done_keys:
  "map (\<lambda>r. (ump_user_id r, ump_module_id r)) (update_done ps now u mid)
     = map (\<lambda>r. (ump_user_id r, ump_module_id r)) ps"
  by (induction ps) (simp_all add: update_done_def)

lemma upsert_active_wf:
  assumes "wf_progress ps"
  shows "wf_progress (upsert_active ps now u n)"
proof (cases "list_ex (\<lambda>r. ump_user_id r = u \<and> ump_module_id r = n) ps")
  case True
  define g :: "progress \<Rightarrow> progress"
    where "g = (\<lambda>r. if ump_user_id r = u \<and> ump_module_id r = n \<and> ump_status r \<noteq> Done
                then r\<lparr> ump_status := Active,
                        ump_started_at := Some (case ump_started_at r of None \<Rightarrow> now | Some t \<Rightarrow> t),
                        ump_updated_at := Some now \<rparr>
                else r)"
  have "(ump_user_id (g r), ump_module_id (g r)) = (ump_user_id r, ump_module_id r)" for r
    by (simp add: g_def)
  then have "map (\<lambda>r. (ump_user_id r, ump_module_id r)) (map g ps)
        = map (\<lambda>r. (ump_user_id r, ump_module_id r)) ps"
    by (induction ps) simp_all
  moreover from True have "upsert_active ps now u n = map g ps"
    by (simp add: upsert_active_def g_def)
  ultimately show ?thesis using assms by (simp only: wf_progress_def)
next
  case False
  then have "(u, n) \<notin> set (map (\<lambda>r. (ump_user_id r, ump_module_id r)) ps)"
    by (auto simp: list_ex_iff)
  with False assms show ?thesis by (simp add: upsert_active_def wf_progress_def)
qed

lemma complete_module_returns:
  assumes "wf_modules ms" and "int4_successors ms"
  shows "\<exists>ps'. complete_module ms ps now u mid = Inr ps'"
proof -
  from select_next_module_id_returns [OF assms, of mid]
  obtain x where "select_next_module_id ms mid = Inr x" ..
  then show ?thesis by (cases x) (simp_all add: complete_module_def Let_def)
qed

text \<open>
  With the catalog's key constraints a call raises only \<^verbatim>\<open>integer out of range\<close>, and
  only when the catalog has a module at the largest \<^verbatim>\<open>INTEGER\<close>; whether it raises
  does not depend on the time of the call.
\<close>

lemma complete_module_raises:
  assumes "wf_modules ms" and "complete_module ms ps now u mid = Inl e"
  shows "e = NumericValueOutOfRange \<and> \<not> int4_successors ms"
proof -
  from assms(2) have "select_next_module_id ms mid = Inl e"
    by (auto simp: complete_module_def Let_def split: if_splits sum.splits option.splits)
  with assms(1) show ?thesis by (rule select_next_module_id_raises)
qed


text \<open>
  The three ways a call returns: unchanged at the guard, after the update alone when
  there is no successor, after the update and the upsert otherwise.
\<close>

lemma complete_module_cases:
  assumes "complete_module ms ps now u mid = Inr ps'"
  shows "select_status ps u mid \<noteq> Some Active \<and> ps' = ps
       \<or> select_status ps u mid = Some Active \<and> select_next_module_id ms mid = Inr None
           \<and> ps' = update_done ps now u mid
       \<or> (\<exists>n. select_status ps u mid = Some Active \<and> select_next_module_id ms mid = Inr (Some n)
           \<and> ps' = upsert_active (update_done ps now u mid) now u n)"
  using assms
  by (auto simp: complete_module_def Let_def split: if_splits sum.splits option.splits)

text \<open>
  The status that \<^verbatim>\<open>SELECT status INTO\<close> reads after a completing call, for every user
  and module, in terms of what it read before.
\<close>

lemma complete_module_status:
  assumes "complete_module ms ps now u mid = Inr ps'" and "select_status ps u mid = Some Active"
  shows "select_status ps' u' x =
           (if u' = u \<and> x = mid then Some Done
            else if u' = u \<and> select_next_module_id ms mid = Inr (Some x)
                 then (if select_status ps u x = Some Done then Some Done else Some Active)
                 else select_status ps u' x)"
  using complete_module_cases [OF assms(1)] assms(2)
  by (auto simp: select_status_update_done_eq select_status_upsert_active_eq)


lemma complete_module_wf:
  assumes "wf_progress ps" and "complete_module ms ps now u mid = Inr ps'"
  shows "wf_progress ps'"
proof -
  from assms(1) have "wf_progress (update_done ps now u mid)"
    by (simp add: wf_progress_def update_done_keys)
  with complete_module_cases [OF assms(2)] assms(1) show ?thesis
    by (auto simp: upsert_active_wf)
qed

text \<open>
  A table that a call returns is either the one it was given, or one in which the module
  is done and the module at the next \<^verbatim>\<open>order_index\<close>, if there is one, is active or
  done.
\<close>

lemma complete_module_both_or_neither:
  assumes "complete_module ms ps now u mid = Inr ps'"
  shows "ps' = ps
       \<or> (select_status ps' u mid = Some Done
          \<and> (\<forall>n. select_next_module_id ms mid = Inr (Some n)
                \<longrightarrow> select_status ps' u n = Some Active \<or> select_status ps' u n = Some Done))"
proof (cases "select_status ps u mid = Some Active")
  case True
  from complete_module_status [OF assms True] show ?thesis by auto
next
  case False
  with complete_module_cases [OF assms] show ?thesis by auto
qed

section \<open>The completion transition\<close>

text \<open>
  C5. Silent no-op: when the row that \<^verbatim>\<open>complete_module\<close> reads for the user and the
  module is absent, or its status is \<^verbatim>\<open>locked\<close> or \<^verbatim>\<open>done\<close>, the call returns
  normally and the progress table is the one it was given.
\<close>

theorem complete_module_noop:
  assumes "select_status ps u mid \<in> {None, Some Locked, Some Done}"
  shows "complete_module ms ps now u mid = Inr ps"
  using assms by (auto simp: complete_module_def)

theorem complete_module_noop_witness:
  "select_status midway_progress 7 4 \<in> {None, Some Locked, Some Done}
   \<and> select_status midway_progress 7 3 = Some Locked
   \<and> select_status midway_progress 7 1 = Some Done
   \<and> complete_module seed_modules midway_progress 30 7 4 = Inr midway_progress
   \<and> complete_module seed_modules midway_progress 30 7 3 = Inr midway_progress
   \<and> complete_module seed_modules midway_progress 30 7 1 = Inr midway_progress"
proof -
  have a: "select_status midway_progress 7 4 = None"
    and l: "select_status midway_progress 7 3 = Some Locked"
    and d: "select_status midway_progress 7 1 = Some Done"
    by (simp_all add: select_status_def select_progress_def midway_progress_def stored_row_def)
  from a have "complete_module seed_modules midway_progress 30 7 4 = Inr midway_progress"
    by (intro complete_module_noop) simp
  moreover from l have "complete_module seed_modules midway_progress 30 7 3 = Inr midway_progress"
    by (intro complete_module_noop) simp
  moreover from d have "complete_module seed_modules midway_progress 30 7 1 = Inr midway_progress"
    by (intro complete_module_noop) simp
  ultimately show ?thesis using a l d by simp
qed





text \<open>
  C8, as the function has it. Completing the last module does not always succeed: when
  its \<^verbatim>\<open>order_index\<close> is the largest \<^verbatim>\<open>INTEGER\<close>, the lookup of
  \<^verbatim>\<open>order_index + 1\<close> raises \<^verbatim>\<open>integer out of range\<close> after the update.
\<close>

theorem complete_module_last_overflow_counterexample:
  "wf_modules edge_modules \<and> wf_progress edge_progress
   \<and> list_all (\<lambda>m'. m_order_index m' \<le> 2147483647) edge_modules
   \<and> select_status edge_progress 8 1 = Some Active
   \<and> complete_module edge_modules edge_progress 30 8 1 = Inl NumericValueOutOfRange"
  by (simp add: call_defs wf_modules_def wf_progress_def edge_modules_def catalog_row_def
      edge_progress_def stored_row_def)

text \<open>
  C8, amended. Terminal module: completing the module with the greatest
  \<^verbatim>\<open>order_index\<close>, an \<^verbatim>\<open>INTEGER\<close> below the largest one, while its row is active
  returns normally; the rows of that user and module get status \<^verbatim>\<open>done\<close> and
  \<^verbatim>\<open>completed_at = NOW()\<close>, every other row is unchanged and no row is added.
\<close>

theorem complete_module_last:
  assumes "wf_modules ms" and "m \<in> set ms"
    and "\<forall>m'\<in>set ms. m_order_index m' \<le> m_order_index m"
    and "int4 (m_order_index m)" and "m_order_index m < 2147483647"
    and "select_status ps u (m_id m) = Some Active"
  shows "\<exists>ps'. complete_module ms ps now u (m_id m) = Inr ps'
           \<and> length ps' = length ps
           \<and> (\<forall>i<length ps. ps' ! i =
                 (if ump_user_id (ps ! i) = u \<and> ump_module_id (ps ! i) = m_id m
                  then (ps ! i)\<lparr> ump_status := Done, ump_completed_at := Some now,
                                  ump_updated_at := Some now \<rparr>
                  else ps ! i))"
proof -
  from assms(4,5) have "int4 (m_order_index m + 1)" by (simp add: int4_def)
  with assms have "complete_module ms ps now u (m_id m) = Inr (update_done ps now u (m_id m))"
    by (simp add: complete_module_def select_next_module_id_last)
  then show ?thesis by (simp add: update_done_def)
qed

theorem complete_module_last_witness:
  "wf_modules seed_modules
   \<and> catalog_row 5 ''Final test'' 5 \<in> set seed_modules
   \<and> list_all (\<lambda>m'. m_order_index m' \<le> 5) seed_modules
   \<and> int4 5 \<and> (5 :: int) < 2147483647
   \<and> select_status final_progress 8 5 = Some Active
   \<and> complete_module seed_modules final_progress 30 8 5
       = Inr [stored_row 8 4 Done (Some 10) (Some 20),
              (stored_row 8 5 Done (Some 20) (Some 30))\<lparr> ump_updated_at := Some 30 \<rparr>]"
proof -
  let ?m = "catalog_row 5 ''Final test'' 5"
  have h1: "wf_modules seed_modules" by (rule wf_seed_modules)
  have h2: "?m \<in> set seed_modules" by (simp add: seed_modules_def)
  have h3: "\<forall>m'\<in>set seed_modules. m_order_index m' \<le> m_order_index ?m"
    by (simp add: seed_modules_def catalog_row_def)
  have h4: "select_status final_progress 8 (m_id ?m) = Some Active"
    by (simp add: select_status_def select_progress_def final_progress_def stored_row_def catalog_row_def)
  have h5: "int4 (m_order_index ?m)" and h6: "m_order_index ?m < 2147483647"
    by (simp_all add: int4_def catalog_row_def)
  from complete_module_last [OF h1 h2 h3 h5 h6 h4, of 30]
  obtain ps' where r: "complete_module seed_modules final_progress 30 8 (m_id ?m) = Inr ps'"
    and l: "length ps' = length final_progress"
    and e: "\<forall>i<length final_progress. ps' ! i =
                 (if ump_user_id (final_progress ! i) = 8 \<and> ump_module_id (final_progress ! i) = m_id ?m
                  then (final_progress ! i)\<lparr> ump_status := Done, ump_completed_at := Some 30,
                                  ump_updated_at := Some 30 \<rparr>
                  else final_progress ! i)" by blast
  from l obtain a b where ab: "ps' = [a, b]"
    by (cases ps'; cases "tl ps'"; auto simp: final_progress_def)
  from e have "ps' ! 0 = stored_row 8 4 Done (Some 10) (Some 20)"
    by (simp add: final_progress_def stored_row_def catalog_row_def)
  moreover from e have "ps' ! 1 = (stored_row 8 5 Done (Some 20) (Some 30))\<lparr> ump_updated_at := Some 30 \<rparr>"
    by (simp add: final_progress_def stored_row_def catalog_row_def)
  ultimately have "ps' = [stored_row 8 4 Done (Some 10) (Some 20),
              (stored_row 8 5 Done (Some 20) (Some 30))\<lparr> ump_updated_at := Some 30 \<rparr>]"
    using ab by simp
  with r h1 h2 h3 h4 h5 h6 show ?thesis by (simp add: catalog_row_def list_all_iff)
qed

section \<open>Modules that are not in the catalog\<close>




text \<open>
  C10. For a module identifier that is not in the catalog and a user with no stored row
  for it, \<^verbatim>\<open>get_module_status\<close> returns \<^verbatim>\<open>active\<close>: the order index is NULL, both
  counts are 0 and the comparison of the counts succeeds.
\<close>

theorem get_module_status_unknown:
  assumes "mid \<notin> set (map m_id ms)" and "select_status ps u mid = None"
  shows "get_module_status ms ps u mid = Inr Active
       \<and> previous_done_count ms ps u (select_order_index ms mid) = 0
       \<and> total_previous_modules ms (select_order_index ms mid) = 0"
  using assms by (simp add: get_module_status_def select_order_index_unknown)

theorem get_module_status_unknown_witness:
  "6 \<notin> set (map m_id seed_modules)
   \<and> select_status midway_progress 7 6 = None
   \<and> get_module_status seed_modules midway_progress 7 6 = Inr Active"
proof -
  have h1: "6 \<notin> set (map m_id seed_modules)"
    by (simp add: seed_modules_def catalog_row_def)
  have h2: "select_status midway_progress 7 6 = None"
    by (simp add: select_status_def select_progress_def midway_progress_def stored_row_def)
  from get_module_status_unknown [OF h1 h2] h1 h2 show ?thesis by simp
qed

section \<open>The join and the two counts\<close>

lemma left_join_set:
  assumes "(m, ump) \<in> set (left_join_progress ms ps u)"
  shows "m \<in> set ms \<and>
         (case ump of
            None \<Rightarrow> \<forall>r\<in>set ps. \<not> (ump_user_id r = u \<and> ump_module_id r = m_id m)
          | Some r \<Rightarrow> r \<in> set ps \<and> ump_user_id r = u \<and> ump_module_id r = m_id m)"
  using assms
  by (auto simp: left_join_progress_def Let_def filter_empty_conv split: if_splits option.splits)

lemma left_join_block_fst:
  "fst ` set (let rs = filter (\<lambda>ump. m_id m = ump_module_id ump \<and> ump_user_id ump = u) ps
              in if rs = [] then [(m, None)] else map (\<lambda>ump. (m, Some ump)) rs) = {m}"
proof (cases "filter (\<lambda>ump. m_id m = ump_module_id ump \<and> ump_user_id ump = u) ps = []")
  case True
  then show ?thesis by simp
next
  case False
  then obtain r rs where "filter (\<lambda>ump. m_id m = ump_module_id ump \<and> ump_user_id ump = u) ps = r # rs"
    by (cases "filter (\<lambda>ump. m_id m = ump_module_id ump \<and> ump_user_id ump = u) ps") auto
  then show ?thesis by (auto simp: image_image)
qed

lemma left_join_modules: "fst ` set (left_join_progress ms ps u) = set ms"
proof -
  have "fst ` set (left_join_progress ms ps u) = (\<Union>m\<in>set ms. {m})"
    unfolding left_join_progress_def set_concat set_map image_UN image_image
    by (simp only: left_join_block_fst)
  then show ?thesis by simp
qed

lemma left_join_select:
  assumes "wf_progress ps" and "(m, ump) \<in> set (left_join_progress ms ps u)"
  shows "select_progress ps u (m_id m) = ump"
proof (cases ump)
  case None
  with left_join_set [OF assms(2)] show ?thesis
    by (auto simp: select_progress_def find_None_iff)
next
  case (Some r)
  with left_join_set [OF assms(2)]
  have r: "r \<in> set ps" "ump_user_id r = u" "ump_module_id r = m_id m" by auto
  then obtain r0 where f: "select_progress ps u (m_id m) = Some r0"
    by (cases "select_progress ps u (m_id m)") (auto simp: select_progress_def find_None_iff)
  from wf_progress_unique [OF assms(1) f r] Some f show ?thesis by simp
qed

lemma left_join_no_rows:
  assumes "u \<notin> ump_user_id ` set ps"
  shows "left_join_progress ms ps u = map (\<lambda>m. (m, None)) ms"
proof -
  have f: "filter (\<lambda>ump. m_id m = ump_module_id ump \<and> ump_user_id ump = u) ps = []" for m
    using assms by (auto simp: filter_empty_conv)
  show ?thesis
    by (simp add: left_join_progress_def f)
qed

lemma get_module_status_subquery_status:
  assumes "wf_modules ms" and "wf_progress ps" and "(m, ump) \<in> set (left_join_progress ms ps u)"
  shows "get_module_status ms ps u (m_id m) = Inr (subquery_status ms ps u m ump)"
proof -
  from left_join_set [OF assms(3)] have "m \<in> set ms" by simp
  with assms(1) have oi: "select_order_index ms (m_id m) = Some (m_order_index m)"
    by (rule select_order_index_known)
  from left_join_select [OF assms(2,3)] have st: "select_status ps u (m_id m) = map_option ump_status ump"
    by (simp add: select_status_def)
  show ?thesis
    by (simp add: get_module_status_def Let_def subquery_status_def oi st)
qed

lemma stored_status_done_iff:
  "(case ump of None \<Rightarrow> Locked | Some r \<Rightarrow> ump_status r) = Done
     \<longleftrightarrow> subquery_status ms ps u m ump = Done"
  by (cases ump) (simp_all add: subquery_status_def)

text \<open>
  Under \<^verbatim>\<open>UNIQUE(user_id, module_id)\<close> the joined count is the number of earlier
  modules whose stored status is done, so the comparison of the two counts says that
  every earlier module is done.
\<close>

lemma previous_done_count_eq:
  assumes "wf_progress ps"
  shows "previous_done_count ms ps u (Some b)
           = length (filter (\<lambda>m. m_order_index m < b \<and> select_status ps u (m_id m) = Some Done) ms)"
proof -
  have one: "filter (\<lambda>ump. m_id m = ump_module_id ump \<and> ump_user_id ump = u \<and> ump_status ump = Done
                        \<and> m_order_index m < b) ps
               = (if m_order_index m < b \<and> select_status ps u (m_id m) = Some Done
                  then [the (select_progress ps u (m_id m))] else [])" for m :: module
  proof -
    have "filter (\<lambda>ump. m_id m = ump_module_id ump \<and> ump_user_id ump = u \<and> ump_status ump = Done
                        \<and> m_order_index m < b) ps
            = filter (\<lambda>ump. ump_status ump = Done \<and> m_order_index m < b)
                (filter (\<lambda>r. ump_user_id r = u \<and> ump_module_id r = m_id m) ps)"
      by (auto intro: filter_cong)
    then show ?thesis
      by (auto simp: filter_key_select [OF assms] select_status_def split: option.splits)
  qed
  have "previous_done_count ms ps u (Some b)
          = length (concat (map (\<lambda>m. filter (\<lambda>ump. m_id m = ump_module_id ump \<and> ump_user_id ump = u
                        \<and> ump_status ump = Done \<and> m_order_index m < b) ps) ms))"
    unfolding previous_done_count_def
    by (simp add: length_concat_filter_swap [of "\<lambda>ump m. m_id m = ump_module_id ump \<and> ump_user_id ump = u
                        \<and> ump_status ump = Done \<and> m_order_index m < b" ms ps])
  also have "\<dots> = length (filter (\<lambda>m. m_order_index m < b \<and> select_status ps u (m_id m) = Some Done) ms)"
    unfolding one by (induction ms) simp_all
  finally show ?thesis .
qed

lemma counts_equal_iff:
  assumes "wf_progress ps"
  shows "previous_done_count ms ps u (Some b) = total_previous_modules ms (Some b)
           \<longleftrightarrow> (\<forall>m'\<in>set ms. m_order_index m' < b \<longrightarrow> select_status ps u (m_id m') = Some Done)"
  by (simp add: previous_done_count_eq [OF assms] total_previous_modules_def length_filter_conj_eq)

lemma subquery_status_rule:
  assumes "wf_progress ps"
  shows "subquery_status ms ps u m ump =
           (if map_option ump_status ump = Some Done then Done
            else if m_order_index m = 1 then Active
            else if \<forall>m'\<in>set ms. m_order_index m' < m_order_index m \<longrightarrow>
                       select_status ps u (m_id m') = Some Done then Active
            else Locked)"
  by (simp add: subquery_status_def counts_equal_iff [OF assms])

section \<open>Stored statuses that are in order\<close>

lemma ordered_progressD:
  assumes "ordered_progress ms ps u" and "m \<in> set ms" and "m' \<in> set ms"
    and "select_status ps u (m_id m) = Some Done \<or> select_status ps u (m_id m) = Some Active"
    and "m_order_index m' < m_order_index m"
  shows "select_status ps u (m_id m') = Some Done"
  using assms unfolding ordered_progress_def list_all_iff by blast

lemma ordered_progressI:
  assumes "\<And>m m'. m \<in> set ms \<Longrightarrow> m' \<in> set ms \<Longrightarrow>
             select_status ps u (m_id m) = Some Done \<or> select_status ps u (m_id m) = Some Active \<Longrightarrow>
             m_order_index m' < m_order_index m \<Longrightarrow> select_status ps u (m_id m') = Some Done"
  shows "ordered_progress ms ps u"
  using assms unfolding ordered_progress_def list_all_iff by blast

lemma frontier_openD:
  assumes "frontier_open ms ps u" and "m \<in> set ms"
    and "m_order_index m = 1
         \<or> (\<forall>m'\<in>set ms. m_order_index m' < m_order_index m \<longrightarrow> select_status ps u (m_id m') = Some Done)"
  shows "select_status ps u (m_id m) = Some Done \<or> select_status ps u (m_id m) = Some Active"
  using assms unfolding frontier_open_def list_all_iff by blast

lemma frontier_openI:
  assumes "\<And>m. m \<in> set ms \<Longrightarrow>
             m_order_index m = 1
             \<or> (\<forall>m'\<in>set ms. m_order_index m' < m_order_index m \<longrightarrow> select_status ps u (m_id m') = Some Done) \<Longrightarrow>
             select_status ps u (m_id m) = Some Done \<or> select_status ps u (m_id m) = Some Active"
  shows "frontier_open ms ps u"
  using assms unfolding frontier_open_def list_all_iff by blast

lemma consecutiveD:
  assumes "consecutive ms" and "m \<in> set ms" and "m' \<in> set ms" and "m_order_index m < m_order_index m'"
  shows "\<exists>m''\<in>set ms. m_order_index m'' = m_order_index m + 1"
  using assms unfolding consecutive_def list_all_iff list_ex_iff by blast

lemma ordered_no_rows:
  assumes "u \<notin> ump_user_id ` set ps"
  shows "ordered_progress ms ps u"
proof -
  from assms have "select_status ps u x = None" for x
    by (auto simp: select_status_def select_progress_def find_None_iff)
  then show ?thesis by (simp add: ordered_progress_def list_all_iff)
qed

text \<open>
  On a table that is in order and has its frontier open, the stored status of every
  joined row is the computed one.
\<close>

lemma stored_status_subquery_status:
  assumes wfp: "wf_progress ps" and ord: "ordered_progress ms ps u" and fr: "frontier_open ms ps u"
    and j: "(m, ump) \<in> set (left_join_progress ms ps u)"
  shows "(case ump of None \<Rightarrow> Locked | Some r \<Rightarrow> ump_status r) = subquery_status ms ps u m ump"
proof -
  from j have m: "m \<in> set ms" using left_join_set by auto
  from wfp j have sel: "select_status ps u (m_id m) = map_option ump_status ump"
    using left_join_select by (auto simp: select_status_def)
  consider (d) "map_option ump_status ump = Some Done" | (a) "map_option ump_status ump = Some Active"
    | (l) "map_option ump_status ump = Some Locked" | (n) "ump = None"
    by (cases ump) (auto intro: status.exhaust)
  then show ?thesis
  proof cases
    case d
    then show ?thesis by (auto simp: subquery_status_rule [OF wfp])
  next
    case a
    with sel have "select_status ps u (m_id m) = Some Active" by simp
    with ord m have "\<forall>m'\<in>set ms. m_order_index m' < m_order_index m \<longrightarrow>
                       select_status ps u (m_id m') = Some Done"
      by (blast intro: ordered_progressD)
    with a show ?thesis by (auto simp: subquery_status_rule [OF wfp])
  next
    case l
    with sel have s: "select_status ps u (m_id m) = Some Locked" by simp
    with frontier_openD [OF fr m] have "\<not> (m_order_index m = 1
         \<or> (\<forall>m'\<in>set ms. m_order_index m' < m_order_index m \<longrightarrow> select_status ps u (m_id m') = Some Done))"
      by auto
    with l show ?thesis by (auto simp: subquery_status_rule [OF wfp])
  next
    case n
    with sel have s: "select_status ps u (m_id m) = None" by simp
    with frontier_openD [OF fr m] have "\<not> (m_order_index m = 1
         \<or> (\<forall>m'\<in>set ms. m_order_index m' < m_order_index m \<longrightarrow> select_status ps u (m_id m') = Some Done))"
      by auto
    with n show ?thesis by (auto simp: subquery_status_rule [OF wfp])
  qed
qed

lemma get_user_modules_settled:
  assumes "wf_progress ps" and "ordered_progress ms ps u" and "frontier_open ms ps u"
  shows "get_user_modules ms ps u = get_user_modules_subquery ms ps u"
proof -
  have "map (\<lambda>(m, ump). output_row m ump (case ump of None \<Rightarrow> Locked | Some r \<Rightarrow> ump_status r))
          (order_by_order_index (left_join_progress ms ps u))
      = map (\<lambda>(m, ump). output_row m ump (subquery_status ms ps u m ump))
          (order_by_order_index (left_join_progress ms ps u))"
  proof (rule map_cong [OF refl])
    fix j assume "j \<in> set (order_by_order_index (left_join_progress ms ps u))"
    then have "(fst j, snd j) \<in> set (left_join_progress ms ps u)"
      by (simp add: order_by_order_index_def)
    from stored_status_subquery_status [OF assms this]
    show "(\<lambda>(m, ump). output_row m ump (case ump of None \<Rightarrow> Locked | Some r \<Rightarrow> ump_status r)) j
        = (\<lambda>(m, ump). output_row m ump (subquery_status ms ps u m ump)) j"
      by (cases j) simp
  qed
  then show ?thesis by (simp add: get_user_modules_def get_user_modules_subquery_def)
qed

text \<open>
  Both shapes are kept by every call, for every user: the completed module had all its
  predecessors done, and the module that becomes active is the one right after it.
\<close>

lemma complete_module_ordered:
  assumes wf: "wf_modules ms" and ord: "ordered_progress ms ps u'"
    and res: "complete_module ms ps now u mid = Inr ps'"
  shows "ordered_progress ms ps' u'"
proof (cases "select_status ps u mid = Some Active")
  case False
  with complete_module_cases [OF res] have "ps' = ps" by auto
  with ord show ?thesis by simp
next
  case act: True
  note st = complete_module_status [OF res act]
  have keep: "select_status ps' u' x = Some Done" if "select_status ps u' x = Some Done" for x
    using that by (auto simp: st)
  show ?thesis
  proof (cases "u' = u")
    case False
    then have "select_status ps' u' x = select_status ps u' x" for x by (simp add: st)
    with ord show ?thesis by (simp add: ordered_progress_def)
  next
    case same: True
    show ?thesis
    proof (rule ordered_progressI)
      fix m m'
      assume m: "m \<in> set ms" and m': "m' \<in> set ms"
        and s: "select_status ps' u' (m_id m) = Some Done \<or> select_status ps' u' (m_id m) = Some Active"
        and lt: "m_order_index m' < m_order_index m"
      consider (cur) "m_id m = mid"
        | (nxt) "m_id m \<noteq> mid" "select_next_module_id ms mid = Inr (Some (m_id m))"
        | (oth) "m_id m \<noteq> mid" "select_next_module_id ms mid \<noteq> Inr (Some (m_id m))"
        by blast
      then have "select_status ps u' (m_id m') = Some Done \<or> m_id m' = mid"
      proof cases
        case cur
        with act same have "select_status ps u' (m_id m) = Some Active" by simp
        with ord m m' lt show ?thesis by (blast intro: ordered_progressD)
      next
        case nxt
        from select_next_module_id_Some [OF wf nxt(2)]
        obtain mm mn where mm: "mm \<in> set ms" "m_id mm = mid"
          and mn: "mn \<in> set ms" "m_id mn = m_id m" "m_order_index mn = m_order_index mm + 1"
          by blast
        from wf mn(1) m mn(2) have "mn = m" by (rule wf_modules_id_inj)
        with mn(3) lt have le: "m_order_index m' \<le> m_order_index mm" by simp
        show ?thesis
        proof (cases "m_order_index m' = m_order_index mm")
          case True
          with wf m' mm(1) have "m' = mm" by (rule wf_modules_order_inj)
          with mm(2) show ?thesis by simp
        next
          case False
          with le have "m_order_index m' < m_order_index mm" by simp
          moreover from act same mm(2) have "select_status ps u' (m_id mm) = Some Active" by simp
          ultimately show ?thesis using ord mm(1) m' by (blast intro: ordered_progressD)
        qed
      next
        case oth
        with s same have "select_status ps u' (m_id m) = Some Done \<or> select_status ps u' (m_id m) = Some Active"
          by (simp add: st)
        with ord m m' lt show ?thesis by (blast intro: ordered_progressD)
      qed
      then show "select_status ps' u' (m_id m') = Some Done"
      proof
        assume "select_status ps u' (m_id m') = Some Done"
        then show ?thesis by (rule keep)
      next
        assume "m_id m' = mid"
        with same show ?thesis by (simp add: st)
      qed
    qed
  qed
qed

lemma complete_module_frontier:
  assumes wf: "wf_modules ms" and con: "consecutive ms"
    and ord: "ordered_progress ms ps u'" and fr: "frontier_open ms ps u'"
    and res: "complete_module ms ps now u mid = Inr ps'"
  shows "frontier_open ms ps' u'"
proof (cases "select_status ps u mid = Some Active")
  case False
  with complete_module_cases [OF res] have "ps' = ps" by auto
  with fr show ?thesis by simp
next
  case act: True
  note st = complete_module_status [OF res act]
  show ?thesis
  proof (cases "u' = u")
    case False
    then have "select_status ps' u' x = select_status ps u' x" for x by (simp add: st)
    with fr show ?thesis by (simp add: frontier_open_def)
  next
    case same: True
    have stay: "select_status ps' u' x = Some Done \<or> select_status ps' u' x = Some Active"
      if "select_status ps u' x = Some Done \<or> select_status ps u' x = Some Active" for x
      using that same by (auto simp: st)
    have was_done: "select_status ps u' x = Some Done"
      if "select_status ps' u' x = Some Done" and "x \<noteq> mid" for x
      using that same by (auto simp: st split: if_splits)
    show ?thesis
    proof (rule frontier_openI)
      fix m
      assume m: "m \<in> set ms"
        and av: "m_order_index m = 1
                 \<or> (\<forall>m'\<in>set ms. m_order_index m' < m_order_index m \<longrightarrow> select_status ps' u' (m_id m') = Some Done)"
      show "select_status ps' u' (m_id m) = Some Done \<or> select_status ps' u' (m_id m) = Some Active"
      proof (cases "m_order_index m = 1
                 \<or> (\<forall>m'\<in>set ms. m_order_index m' < m_order_index m \<longrightarrow> select_status ps u' (m_id m') = Some Done)")
        case True
        with fr m have "select_status ps u' (m_id m) = Some Done \<or> select_status ps u' (m_id m) = Some Active"
          by (rule frontier_openD)
        then show ?thesis by (rule stay)
      next
        case False
        then obtain mm where mm: "mm \<in> set ms" "m_order_index mm < m_order_index m"
          "select_status ps u' (m_id mm) \<noteq> Some Done" by blast
        from False av have all': "\<forall>m'\<in>set ms. m_order_index m' < m_order_index m \<longrightarrow> select_status ps' u' (m_id m') = Some Done"
          by blast
        with mm have "select_status ps' u' (m_id mm) = Some Done" by blast
        with mm(3) was_done have mid: "m_id mm = mid" by blast
        from consecutiveD [OF con mm(1) m mm(2)]
        obtain mn where mn: "mn \<in> set ms" "m_order_index mn = m_order_index mm + 1" by blast
        have "m_order_index mn = m_order_index m"
        proof (rule ccontr)
          assume "m_order_index mn \<noteq> m_order_index m"
          with mn(2) mm(2) have lt: "m_order_index mn < m_order_index m" by simp
          with all' mn(1) have d': "select_status ps' u' (m_id mn) = Some Done" by blast
          have "m_id mn \<noteq> mid"
          proof
            assume "m_id mn = mid"
            with mid wf mn(1) mm(1) have "mn = mm" by (auto intro: wf_modules_id_inj)
            with mn(2) show False by simp
          qed
          with d' have "select_status ps u' (m_id mn) = Some Done" by (rule was_done)
          with ord mn(1) mm(1) mn(2) have "select_status ps u' (m_id mm) = Some Done"
            by (auto intro: ordered_progressD)
          with mm(3) show False by simp
        qed
        with wf mn(1) m have eq: "mn = m" by (rule wf_modules_order_inj)
        from complete_module_cases [OF res] act
        obtain x where "select_next_module_id ms mid = Inr x" by auto
        with mid have ret: "select_next_module_id ms (m_id mm) = Inr x" by simp
        from select_next_module_id_at [OF wf mm(1) mn(1) mn(2) ret] ret eq mid
        have "select_next_module_id ms mid = Inr (Some (m_id m))" by simp
        with same show ?thesis by (auto simp: st)
      qed
    qed
  qed
qed

lemma run_calls_ordered:
  assumes "wf_modules ms" and "wf_progress ps" and "ordered_progress ms ps u"
    and "run_calls ms ps cs = Inr ps'"
  shows "wf_progress ps' \<and> ordered_progress ms ps' u"
  using assms(2,3,4)
proof (induction cs arbitrary: ps)
  case Nil
  then show ?case by simp
next
  case (Cons c cs)
  obtain now u' mid where c: "c = (now, u', mid)" by (cases c)
  from Cons.prems(3) c
  obtain ps1 where r: "complete_module ms ps now u' mid = Inr ps1"
    and rest: "run_calls ms ps1 cs = Inr ps'"
    by (auto split: sum.splits)
  from Cons.prems(1) r have w: "wf_progress ps1" by (rule complete_module_wf)
  from assms(1) Cons.prems(2) r have o: "ordered_progress ms ps1 u" by (rule complete_module_ordered)
  from w o rest show ?case by (rule Cons.IH)
qed

lemma run_calls_settled:
  assumes "wf_modules ms" and "consecutive ms"
    and "wf_progress ps" and "ordered_progress ms ps u" and "frontier_open ms ps u"
    and "run_calls ms ps cs = Inr ps'"
  shows "wf_progress ps' \<and> ordered_progress ms ps' u \<and> frontier_open ms ps' u"
  using assms(3,4,5,6)
proof (induction cs arbitrary: ps)
  case Nil
  then show ?case by simp
next
  case (Cons c cs)
  obtain now u' mid where c: "c = (now, u', mid)" by (cases c)
  from Cons.prems(4) c
  obtain ps1 where r: "complete_module ms ps now u' mid = Inr ps1"
    and rest: "run_calls ms ps1 cs = Inr ps'"
    by (auto split: sum.splits)
  from Cons.prems(1) r have w: "wf_progress ps1" by (rule complete_module_wf)
  from assms(1) Cons.prems(2) r have o: "ordered_progress ms ps1 u" by (rule complete_module_ordered)
  from assms(1,2) Cons.prems(2,3) r have f: "frontier_open ms ps1 u" by (rule complete_module_frontier)
  from w o f rest show ?case by (rule Cons.IH)
qed

text \<open>
  A session returns when no successor lookup can overflow, and otherwise ends with
  \<^verbatim>\<open>integer out of range\<close> or returns.
\<close>

lemma run_calls_returns:
  assumes "wf_modules ms" and "int4_successors ms"
  shows "\<exists>ps'. run_calls ms ps cs = Inr ps'"
proof (induction cs arbitrary: ps)
  case Nil
  show ?case by simp
next
  case (Cons c cs)
  obtain now u' mid where c: "c = (now, u', mid)" by (cases c)
  from complete_module_returns [OF assms]
  obtain ps1 where r: "complete_module ms ps now u' mid = Inr ps1" by blast
  from Cons.IH [of ps1] r c show ?case by simp
qed

lemma run_calls_raises:
  assumes "wf_modules ms" and "run_calls ms ps cs = Inl e"
  shows "e = NumericValueOutOfRange \<and> \<not> int4_successors ms"
  using assms(2)
proof (induction cs arbitrary: ps)
  case Nil
  then show ?case by simp
next
  case (Cons c cs)
  obtain now u' mid where c: "c = (now, u', mid)" by (cases c)
  show ?case
  proof (cases "complete_module ms ps now u' mid")
    case (Inl e')
    with Cons.prems c have "e' = e" by simp
    with Inl assms(1) show ?thesis by (auto dest: complete_module_raises)
  next
    case (Inr ps1)
    with Cons.prems c have "run_calls ms ps1 cs = Inl e" by simp
    then show ?thesis by (rule Cons.IH)
  qed
qed

lemma started_settled: "wf_progress started_progress \<and> ordered_progress seed_modules started_progress 7
    \<and> frontier_open seed_modules started_progress 7"
  by (simp add: wf_progress_def ordered_progress_def frontier_open_def select_status_def select_progress_def
      seed_modules_def catalog_row_def started_progress_def stored_row_def)

text \<open>
  A table that is in order shows its done modules as a prefix, in both projections, and
  stays so over any session.
\<close>

lemma joined_done_prefix:
  assumes wfp: "wf_progress ps" and ord: "ordered_progress ms ps u"
    and f: "\<And>m ump. r_order_index (f (m, ump)) = m_order_index m"
    and st: "\<And>m ump. (r_status (f (m, ump)) = Done) = (map_option ump_status ump = Some Done)"
  shows "done_prefix (map f (order_by_order_index (left_join_progress ms ps u)))"
proof -
  let ?L = "left_join_progress ms ps u"
  have sJ: "set (order_by_order_index ?L) = set ?L"
    by (simp add: order_by_order_index_def)
  have "r_status (f j') = Done"
    if j: "j \<in> set ?L" and j': "j' \<in> set ?L" and d: "r_status (f j) = Done"
      and lt: "r_order_index (f j') < r_order_index (f j)" for j j'
  proof -
    obtain m ump where [simp]: "j = (m, ump)" by (cases j)
    obtain m' ump' where [simp]: "j' = (m', ump')" by (cases j')
    from j j' have m: "m \<in> set ms" and m': "m' \<in> set ms"
      using left_join_set by auto
    from j j' wfp have u: "select_progress ps u (m_id m) = ump"
      and u': "select_progress ps u (m_id m') = ump'"
      using left_join_select by auto
    from d have "select_status ps u (m_id m) = Some Done"
      by (simp add: st select_status_def u)
    moreover from lt have "m_order_index m' < m_order_index m" by (simp add: f)
    ultimately have "select_status ps u (m_id m') = Some Done"
      using ord m m' by (blast intro: ordered_progressD)
    then show ?thesis by (simp add: st select_status_def u')
  qed
  then show ?thesis
    unfolding done_prefix_def list_all_iff set_map sJ by blast
qed

lemma ordered_done_prefix:
  assumes "wf_progress ps" and "ordered_progress ms ps u"
  shows "\<exists>rows rows'. get_user_modules ms ps u = Inr rows \<and> done_prefix rows
           \<and> get_user_modules_subquery ms ps u = Inr rows' \<and> done_prefix rows'"
proof -
  have "done_prefix (map (\<lambda>(m, ump). output_row m ump (case ump of None \<Rightarrow> Locked | Some r \<Rightarrow> ump_status r))
          (order_by_order_index (left_join_progress ms ps u)))"
    using assms
  proof (rule joined_done_prefix)
    fix m and ump :: "progress option"
    show "r_order_index ((\<lambda>(m, ump). output_row m ump (case ump of None \<Rightarrow> Locked | Some r \<Rightarrow> ump_status r)) (m, ump))
            = m_order_index m"
      by (simp add: output_row_def)
    show "(r_status ((\<lambda>(m, ump). output_row m ump (case ump of None \<Rightarrow> Locked | Some r \<Rightarrow> ump_status r)) (m, ump)) = Done)
            = (map_option ump_status ump = Some Done)"
      by (cases ump) (simp_all add: output_row_def)
  qed
  moreover
  have "done_prefix (map (\<lambda>(m, ump). output_row m ump (subquery_status ms ps u m ump))
          (order_by_order_index (left_join_progress ms ps u)))"
    using assms
  proof (rule joined_done_prefix)
    fix m and ump :: "progress option"
    show "r_order_index ((\<lambda>(m, ump). output_row m ump (subquery_status ms ps u m ump)) (m, ump))
            = m_order_index m"
      by (simp add: output_row_def)
    show "(r_status ((\<lambda>(m, ump). output_row m ump (subquery_status ms ps u m ump)) (m, ump)) = Done)
            = (map_option ump_status ump = Some Done)"
      by (simp add: output_row_def subquery_status_def)
  qed
  ultimately show ?thesis
    by (simp add: get_user_modules_def get_user_modules_subquery_def)
qed

text \<open>
  A session of user 7 on the seed catalog that starts with the first module active:
  module 1 is completed, the repeated call and the call for the locked module 3 change
  nothing, and module 2 is completed.
\<close>

lemma started_session:
  "run_calls seed_modules started_progress [(10, 7, 1), (11, 7, 1), (12, 7, 3), (13, 7, 2)]
     = Inr [(stored_row 7 1 Done (Some 0) (Some 10))\<lparr> ump_updated_at := Some 10 \<rparr>,
            (stored_row 7 2 Done (Some 10) (Some 13))\<lparr> ump_created_at := Some 10, ump_updated_at := Some 13 \<rparr>,
            (stored_row 7 3 Active (Some 13) None)\<lparr> ump_created_at := Some 13, ump_updated_at := Some 13 \<rparr>]"
  by (simp add: call_defs seed_modules_def catalog_row_def started_progress_def stored_row_def)

section \<open>The status projections\<close>

text \<open>
  A user with no row at all: the stored-status function reports every module locked,
  whatever the catalog; the correlated-subquery function reports the module with
  \<^verbatim>\<open>order_index = 1\<close> active and the others locked, when the catalog starts at 1.
\<close>

lemma get_user_modules_no_rows:
  assumes "u \<notin> ump_user_id ` set ps" and "get_user_modules ms ps u = Inr rows"
  shows "\<forall>r\<in>set rows. r_status r = Locked"
  using assms
  by (auto simp: get_user_modules_def left_join_no_rows order_by_order_index_def output_row_def)

lemma previous_done_count_no_rows:
  assumes "u \<notin> ump_user_id ` set ps"
  shows "previous_done_count ms ps u bound = 0"
proof -
  have "filter (\<lambda>m. m_id m = ump_module_id ump \<and> ump_user_id ump = u \<and> ump_status ump = Done
                    \<and> (case bound of None \<Rightarrow> False | Some b \<Rightarrow> m_order_index m < b)) ms = []"
    if "ump \<in> set ps" for ump
    using that assms by (auto simp: filter_empty_conv)
  then show ?thesis by (simp add: previous_done_count_def)
qed

lemma get_user_modules_subquery_new_user:
  assumes none: "u \<notin> ump_user_id ` set ps"
    and first: "\<exists>m\<in>set ms. m_order_index m = 1" and low: "\<forall>m\<in>set ms. 1 \<le> m_order_index m"
    and res: "get_user_modules_subquery ms ps u = Inr rows"
  shows "r_id ` set rows = m_id ` set ms
       \<and> (\<forall>r\<in>set rows. r_status r = (if r_order_index r = 1 then Active else Locked))"
proof -
  have st: "subquery_status ms ps u m None = (if m_order_index m = 1 then Active else Locked)"
    if "m \<in> set ms" for m
  proof (cases "m_order_index m = 1")
    case True
    then show ?thesis by (simp add: subquery_status_def)
  next
    case False
    from first obtain m1 where "m1 \<in> set ms" and "m_order_index m1 = 1" by blast
    moreover from False low that have "1 < m_order_index m" by force
    ultimately have "\<exists>x\<in>set ms. m_order_index x < m_order_index m"
      by (intro bexI [of _ m1]) simp_all
    then have "filter (\<lambda>x. m_order_index x < m_order_index m) ms \<noteq> []"
      by (simp add: filter_empty_conv)
    then have "total_previous_modules ms (Some (m_order_index m)) \<noteq> 0"
      by (simp add: total_previous_modules_def)
    with False show ?thesis
      by (simp add: subquery_status_def previous_done_count_no_rows [OF none])
  qed
  from res have rows: "set rows = (\<lambda>m. output_row m None (subquery_status ms ps u m None)) ` set ms"
    by (auto simp: get_user_modules_subquery_def left_join_no_rows [OF none] order_by_order_index_def
        image_iff)
  have "r_id ` set rows = m_id ` set ms"
    unfolding rows by (simp add: image_image output_row_def)
  moreover have "\<forall>r\<in>set rows. r_status r = (if r_order_index r = 1 then Active else Locked)"
    unfolding rows by (simp add: output_row_def st)
  ultimately show ?thesis by simp
qed

text \<open>
  C1, at the seed catalog. A user with no progress row is shown every module locked by
  the stored-status \<^verbatim>\<open>get_user_modules\<close>, the first module too, while the
  correlated-subquery \<^verbatim>\<open>get_user_modules\<close> and \<^verbatim>\<open>get_module_status\<close> give the
  first module \<^verbatim>\<open>active\<close>.
\<close>

theorem new_user_first_module_locked:
  "status_column (get_user_modules seed_modules [] 7) = Inr [Locked, Locked, Locked, Locked, Locked]
   \<and> status_column (get_user_modules_subquery seed_modules [] 7) = Inr [Active, Locked, Locked, Locked, Locked]
   \<and> get_module_status seed_modules [] 7 1 = Inr Active"
  by (simp add: eval_defs)

text \<open>
  C2, as the functions have it. The three derivations do not agree on every table: with
  module 1 done and a stored locked row for module 2, the stored-status lookup reports
  module 2 locked and the two computed derivations report it active.
\<close>

theorem status_derivations_differ_counterexample:
  "status_column (get_user_modules seed_modules done_then_locked_progress 7)
     = Inr [Done, Locked, Locked, Locked, Locked]
   \<and> status_column (get_user_modules_subquery seed_modules done_then_locked_progress 7)
     = Inr [Done, Active, Locked, Locked, Locked]
   \<and> get_module_status seed_modules done_then_locked_progress 7 2 = Inr Active"
  by (simp add: eval_defs done_then_locked_progress_def)

text \<open>
  C2, amended. Under the key constraints of both tables, \<^verbatim>\<open>get_module_status\<close> and
  the correlated-subquery \<^verbatim>\<open>get_user_modules\<close> give every catalog module the same
  status for every user; the stored-status \<^verbatim>\<open>get_user_modules\<close> lists the same
  modules in the same order and agrees with them on which modules are \<^verbatim>\<open>done\<close>;
  and it returns the very rows of the correlated-subquery function when the user's
  stored statuses are in order and every module that is first or has all its
  predecessors done has a row that is done or active.
\<close>

theorem status_derivations_agree:
  assumes "wf_modules ms" and "wf_progress ps"
  shows "\<exists>rows rows'. get_user_modules_subquery ms ps u = Inr rows
           \<and> get_user_modules ms ps u = Inr rows'
           \<and> r_id ` set rows = m_id ` set ms
           \<and> (\<forall>row\<in>set rows. get_module_status ms ps u (r_id row) = Inr (r_status row))
           \<and> length rows' = length rows
           \<and> (\<forall>i<length rows. r_id (rows' ! i) = r_id (rows ! i)
                  \<and> (r_status (rows' ! i) = Done \<longleftrightarrow> r_status (rows ! i) = Done))
           \<and> (ordered_progress ms ps u \<and> frontier_open ms ps u \<longrightarrow> rows' = rows)"
proof -
  define J where "J = order_by_order_index (left_join_progress ms ps u)"
  define f where "f = (\<lambda>(m, ump). output_row m ump (subquery_status ms ps u m ump))"
  define g where "g = (\<lambda>(m, ump :: progress option). output_row m ump (case ump of None \<Rightarrow> Locked | Some r \<Rightarrow> ump_status r))"
  have sJ: "set J = set (left_join_progress ms ps u)"
    by (simp add: J_def order_by_order_index_def)
  have fid: "r_id (f j) = m_id (fst j)" for j
    by (cases j) (simp add: f_def output_row_def)
  have gid: "r_id (g j) = m_id (fst j)" for j
    by (cases j) (simp add: g_def output_row_def)
  have fst: "r_status (f j) = subquery_status ms ps u (fst j) (snd j)" for j
    by (cases j) (simp add: f_def output_row_def)
  have gst: "r_status (g j) = (case snd j of None \<Rightarrow> Locked | Some r \<Rightarrow> ump_status r)" for j
    by (cases j) (simp add: g_def output_row_def)
  have sub: "get_user_modules_subquery ms ps u = Inr (map f J)"
    by (simp add: get_user_modules_subquery_def J_def f_def)
  have sto: "get_user_modules ms ps u = Inr (map g J)"
    by (simp add: get_user_modules_def J_def g_def)
  have ids: "r_id ` set (map f J) = m_id ` set ms"
  proof -
    have "r_id ` set (map f J) = m_id ` fst ` set J"
      by (simp add: image_image fid)
    then show ?thesis by (simp only: sJ left_join_modules)
  qed
  have agree: "\<forall>row\<in>set (map f J). get_module_status ms ps u (r_id row) = Inr (r_status row)"
  proof
    fix row assume "row \<in> set (map f J)"
    then obtain j where j: "j \<in> set (left_join_progress ms ps u)" and row: "row = f j"
      using sJ by auto
    from j have "(fst j, snd j) \<in> set (left_join_progress ms ps u)" by simp
    from get_module_status_subquery_status [OF assms this] row
    show "get_module_status ms ps u (r_id row) = Inr (r_status row)"
      by (simp add: fid fst)
  qed
  have dn: "\<forall>i<length (map f J). r_id (map g J ! i) = r_id (map f J ! i)
                  \<and> (r_status (map g J ! i) = Done \<longleftrightarrow> r_status (map f J ! i) = Done)"
    by (simp add: fid gid fst gst stored_status_done_iff)
  have settled: "ordered_progress ms ps u \<and> frontier_open ms ps u \<longrightarrow> map g J = map f J"
  proof
    assume "ordered_progress ms ps u \<and> frontier_open ms ps u"
    with assms(2) have "get_user_modules ms ps u = get_user_modules_subquery ms ps u"
      by (simp add: get_user_modules_settled)
    with sub sto show "map g J = map f J" by simp
  qed
  have "length (map g J) = length (map f J)" by simp
  with sub sto ids agree dn settled show ?thesis by blast
qed

theorem status_derivations_agree_witness:
  "wf_modules seed_modules \<and> wf_progress midway_progress
   \<and> ordered_progress seed_modules midway_progress 7 \<and> frontier_open seed_modules midway_progress 7
   \<and> status_column (get_user_modules seed_modules midway_progress 7)
       = Inr [Done, Active, Locked, Locked, Locked]
   \<and> get_user_modules seed_modules midway_progress 7 = get_user_modules_subquery seed_modules midway_progress 7
   \<and> (\<exists>rows. get_user_modules_subquery seed_modules midway_progress 7 = Inr rows
           \<and> r_id ` set rows = m_id ` set seed_modules
           \<and> list_all (\<lambda>row. get_module_status seed_modules midway_progress 7 (r_id row) = Inr (r_status row)) rows)"
proof -
  have h: "wf_progress midway_progress"
    by (simp add: wf_progress_def midway_progress_def stored_row_def)
  have o: "ordered_progress seed_modules midway_progress 7"
    by (simp add: ordered_progress_def select_status_def select_progress_def
        seed_modules_def catalog_row_def midway_progress_def stored_row_def)
  have f: "frontier_open seed_modules midway_progress 7"
    by (simp add: frontier_open_def select_status_def select_progress_def
        seed_modules_def catalog_row_def midway_progress_def stored_row_def)
  have e: "status_column (get_user_modules seed_modules midway_progress 7)
       = Inr [Done, Active, Locked, Locked, Locked]"
    by (simp add: eval_defs midway_progress_def)
  from status_derivations_agree [OF wf_seed_modules h, of 7] o f
  obtain rows rows' where "get_user_modules_subquery seed_modules midway_progress 7 = Inr rows"
    and "get_user_modules seed_modules midway_progress 7 = Inr rows'"
    and "r_id ` set rows = m_id ` set seed_modules"
    and "\<forall>row\<in>set rows. get_module_status seed_modules midway_progress 7 (r_id row) = Inr (r_status row)"
    and "rows' = rows"
    by blast
  with wf_seed_modules h o f e show ?thesis by (simp add: list_all_iff)
qed

section \<open>The prefix of completed modules\<close>

text \<open>
  C3. Prefix invariant: starting from a table in which the user has no progress row, or
  more generally one in which the user's stored statuses are in order, after any
  sequence of \<^verbatim>\<open>complete_module\<close> calls that return, by any users and for any modules,
  the modules that either projection reports as \<^verbatim>\<open>done\<close> for that user are a prefix
  of the catalog order. A call that raises changes nothing, so the tables a session
  reaches are those of its returning calls; a session ends otherwise only with
  \<^verbatim>\<open>integer out of range\<close>, and only when the catalog has a module at the largest
  \<^verbatim>\<open>INTEGER\<close>.
\<close>

theorem done_prefix_invariant:
  assumes "wf_modules ms" and "wf_progress ps"
    and "u \<notin> ump_user_id ` set ps \<or> ordered_progress ms ps u"
  shows "case run_calls ms ps cs of
           Inr ps' \<Rightarrow>
             ordered_progress ms ps' u
             \<and> (\<exists>rows rows'. get_user_modules ms ps' u = Inr rows \<and> done_prefix rows
                    \<and> get_user_modules_subquery ms ps' u = Inr rows' \<and> done_prefix rows')
         | Inl e \<Rightarrow> e = NumericValueOutOfRange \<and> \<not> int4_successors ms"
proof -
  from assms(3) have ord: "ordered_progress ms ps u" by (auto intro: ordered_no_rows)
  show ?thesis
  proof (cases "run_calls ms ps cs")
    case (Inl e)
    with run_calls_raises [OF assms(1)] show ?thesis by simp
  next
    case (Inr ps')
    from run_calls_ordered [OF assms(1,2) ord Inr]
    have w: "wf_progress ps'" and o: "ordered_progress ms ps' u" by simp_all
    from ordered_done_prefix [OF w o] o Inr show ?thesis by simp
  qed
qed

theorem done_prefix_invariant_witness:
  "wf_modules seed_modules \<and> wf_progress started_progress
   \<and> ordered_progress seed_modules started_progress 7
   \<and> run_calls seed_modules started_progress [(10, 7, 1), (11, 7, 1), (12, 7, 3), (13, 7, 2)]
       = Inr [(stored_row 7 1 Done (Some 0) (Some 10))\<lparr> ump_updated_at := Some 10 \<rparr>,
              (stored_row 7 2 Done (Some 10) (Some 13))\<lparr> ump_created_at := Some 10, ump_updated_at := Some 13 \<rparr>,
              (stored_row 7 3 Active (Some 13) None)\<lparr> ump_created_at := Some 13, ump_updated_at := Some 13 \<rparr>]
   \<and> (\<exists>rows rows'.
          get_user_modules seed_modules
            [(stored_row 7 1 Done (Some 0) (Some 10))\<lparr> ump_updated_at := Some 10 \<rparr>,
             (stored_row 7 2 Done (Some 10) (Some 13))\<lparr> ump_created_at := Some 10, ump_updated_at := Some 13 \<rparr>,
             (stored_row 7 3 Active (Some 13) None)\<lparr> ump_created_at := Some 13, ump_updated_at := Some 13 \<rparr>] 7
            = Inr rows
          \<and> done_prefix rows \<and> map r_status rows = [Done, Done, Active, Locked, Locked]
          \<and> get_user_modules_subquery seed_modules
            [(stored_row 7 1 Done (Some 0) (Some 10))\<lparr> ump_updated_at := Some 10 \<rparr>,
             (stored_row 7 2 Done (Some 10) (Some 13))\<lparr> ump_created_at := Some 10, ump_updated_at := Some 13 \<rparr>,
             (stored_row 7 3 Active (Some 13) None)\<lparr> ump_created_at := Some 13, ump_updated_at := Some 13 \<rparr>] 7
            = Inr rows'
          \<and> done_prefix rows' \<and> map r_status rows' = [Done, Done, Active, Locked, Locked])
   \<and> wf_progress midway_progress \<and> 9 \<notin> ump_user_id ` set midway_progress
   \<and> (\<exists>ps' rows rows'. run_calls seed_modules midway_progress [(30, 9, 1), (31, 7, 2), (32, 9, 2)] = Inr ps'
          \<and> get_user_modules seed_modules ps' 9 = Inr rows \<and> done_prefix rows
          \<and> get_user_modules_subquery seed_modules ps' 9 = Inr rows' \<and> done_prefix rows')"
proof -
  let ?cs = "[(10, 7, 1), (11, 7, 1), (12, 7, 3), (13, 7, 2)]"
  let ?ps = "[(stored_row 7 1 Done (Some 0) (Some 10))\<lparr> ump_updated_at := Some 10 \<rparr>,
              (stored_row 7 2 Done (Some 10) (Some 13))\<lparr> ump_created_at := Some 10, ump_updated_at := Some 13 \<rparr>,
              (stored_row 7 3 Active (Some 13) None)\<lparr> ump_created_at := Some 13, ump_updated_at := Some 13 \<rparr>]"
  let ?ds = "[(30, 9, 1), (31, 7, 2), (32, 9, 2)]"
  have w: "wf_progress started_progress" and o: "ordered_progress seed_modules started_progress 7"
    using started_settled by simp_all
  have e: "run_calls seed_modules started_progress ?cs = Inr ?ps"
    by (rule started_session)
  have s1: "status_column (get_user_modules seed_modules ?ps 7) = Inr [Done, Done, Active, Locked, Locked]"
    by (simp add: eval_defs)
  have s2: "status_column (get_user_modules_subquery seed_modules ?ps 7) = Inr [Done, Done, Active, Locked, Locked]"
    by (simp add: eval_defs)
  from o have "7 \<notin> ump_user_id ` set started_progress \<or> ordered_progress seed_modules started_progress 7"
    by simp
  from done_prefix_invariant [OF wf_seed_modules w this, of ?cs]
  have "ordered_progress seed_modules ?ps 7
        \<and> (\<exists>rows rows'. get_user_modules seed_modules ?ps 7 = Inr rows \<and> done_prefix rows
               \<and> get_user_modules_subquery seed_modules ?ps 7 = Inr rows' \<and> done_prefix rows')"
    by (simp only: e sum.case)
  then obtain rows rows' where g: "get_user_modules seed_modules ?ps 7 = Inr rows" "done_prefix rows"
    and g': "get_user_modules_subquery seed_modules ?ps 7 = Inr rows'" "done_prefix rows'"
    by blast
  from s1 g(1) have m1: "map r_status rows = [Done, Done, Active, Locked, Locked]"
    by (simp add: status_column_def)
  from s2 g'(1) have m2: "map r_status rows' = [Done, Done, Active, Locked, Locked]"
    by (simp add: status_column_def)
  have a: "\<exists>rows rows'. get_user_modules seed_modules ?ps 7 = Inr rows
          \<and> done_prefix rows \<and> map r_status rows = [Done, Done, Active, Locked, Locked]
          \<and> get_user_modules_subquery seed_modules ?ps 7 = Inr rows'
          \<and> done_prefix rows' \<and> map r_status rows' = [Done, Done, Active, Locked, Locked]"
    using g g' m1 m2 by auto
  have w2: "wf_progress midway_progress"
    by (simp add: wf_progress_def midway_progress_def stored_row_def)
  have n: "9 \<notin> ump_user_id ` set midway_progress"
    by (simp add: midway_progress_def stored_row_def)
  from run_calls_returns [OF wf_seed_modules seed_int4_successors, of midway_progress ?ds]
  obtain ps' where r: "run_calls seed_modules midway_progress ?ds = Inr ps'" by blast
  from n have "9 \<notin> ump_user_id ` set midway_progress \<or> ordered_progress seed_modules midway_progress 9"
    by simp
  from done_prefix_invariant [OF wf_seed_modules w2 this, of ?ds]
  have "ordered_progress seed_modules ps' 9
        \<and> (\<exists>rows rows'. get_user_modules seed_modules ps' 9 = Inr rows \<and> done_prefix rows
               \<and> get_user_modules_subquery seed_modules ps' 9 = Inr rows' \<and> done_prefix rows')"
    by (simp only: r sum.case)
  with r
  have b: "\<exists>ps' rows rows'. run_calls seed_modules midway_progress ?ds = Inr ps'
          \<and> get_user_modules seed_modules ps' 9 = Inr rows \<and> done_prefix rows
          \<and> get_user_modules_subquery seed_modules ps' 9 = Inr rows' \<and> done_prefix rows'"
    by blast
  show ?thesis
    using wf_seed_modules w o e a w2 n b by (intro conjI) assumption+
qed

end
